theory Spec2Isabelle
  imports Complex_Main
begin

section \<open>The CO2 stream server: data model\<close>

text \<open>
  The server (\<^verbatim>\<open>src/server/run.py\<close>) keeps its session in module-level globals and
  runs on one asyncio event loop. A coroutine runs without interruption from one
  suspension point to the next, and none of the three critical sections
  (\<^verbatim>\<open>async with lock\<close> in \<^verbatim>\<open>receive_co2_raw_data\<close>, \<^verbatim>\<open>check_stream_timeout\<close> and
  \<^verbatim>\<open>get_stats\<close>) contains an \<^verbatim>\<open>await\<close>; so the lock is free whenever a coroutine is
  resumed, acquiring it never suspends, and each of the steps below is atomic.

  The broadcast task is different: \<^verbatim>\<open>broadcast_data\<close> awaits inside its loop, so it is
  modelled one send at a time, and other tasks may run between two of its steps.

  Wall-clock instants (\<^verbatim>\<open>datetime.now()\<close>) are counted in microseconds, the resolution
  of \<^verbatim>\<open>datetime\<close>. Readings are Python integers. Floating-point results of NumPy are
  modelled by the exact real number, \<^verbatim>\<open>nan\<close> by its own constructor.
\<close>

type_synonym time = int
type_synonym conn = nat

datatype task_state = Created | Sleeping | Finished

datatype io_outcome = WriteOk | WriteFails

datatype exn = OverflowError | ValueError | OSError | SendError

datatype failure = HTTPException nat string | ServerError exn

datatype broadcast_task =
    BcCreated nat
  | BcSending string conn nat "conn list"
  | BcDone

datatype float = NaN | Float real

datatype log_event =
    SessionStarted
  | SessionTimeout int
  | NpyNoData
  | NpySaved nat float int int
  | NpyError exn
  | DataSummary nat nat float
  | WsClientConnected nat
  | WsClientDisconnected nat
  | WsBroadcastError exn

record peer =
  alive :: bool
  inbox :: "string list"

record sys =
  data_stream_buffer :: "int list"
  last_data_time :: "time option"
  is_receiving :: bool
  timeout_task :: "nat option"
  total_batches_received :: nat
  total_points_received :: nat
  active_connections :: "conn list"
  tasks :: "task_state list"
  list_objects :: "int list list"
  buffer_object :: nat
  broadcast_tasks :: "broadcast_task list"
  npy_files :: "int list list"
  stdout :: "log_event list"
  peers :: "conn \<Rightarrow> peer"

text \<open>
  The first seven fields are the globals of the module (\<^verbatim>\<open>active_connections\<close> is the
  list of the one \<^verbatim>\<open>ConnectionManager\<close>). The others are the effects:
  \<^item> \<open>tasks\<close>: the \<^verbatim>\<open>check_stream_timeout\<close> tasks created so far, each at its current
    suspension point (\<open>Created\<close>: scheduled, not yet run; \<open>Sleeping\<close>: inside
    \<^verbatim>\<open>asyncio.sleep(1.0)\<close>; \<open>Finished\<close>: returned). \<open>timeout_task\<close> is the index of
    the latest one.
  \<^item> \<open>list_objects\<close>: the list objects \<^verbatim>\<open>raw_z_values_list\<close> of the requests that passed
    validation, in order of creation, each with its contents now. A broadcast task is
    handed such an object, not a copy. \<open>data_stream_buffer\<close> holds the contents of the
    list that the global names; \<open>buffer_object\<close> is the index of the object that the
    latest start of a session bound to the global. While that session is open this
    object is the buffer, and \<^verbatim>\<open>extend\<close> changes it; the closure binds the global to a
    new empty list and leaves the object as it is.
  \<^item> \<open>broadcast_tasks\<close>: the \<^verbatim>\<open>broadcast_data\<close> tasks created so far, each at its
    current suspension point. \<open>BcCreated d\<close>: scheduled, not yet run, with list object
    \<open>d\<close> as its argument; \<open>BcSending message c idx disconnected\<close>: inside
    \<^verbatim>\<open>await connection.send_text(message)\<close> for the connection \<open>c\<close>, the iterator of the
    \<^verbatim>\<open>for\<close> loop standing at index \<open>idx\<close> of \<^verbatim>\<open>active_connections\<close>; \<open>BcDone\<close>: returned.
  \<^item> \<open>npy_files\<close>: the arrays written by \<^verbatim>\<open>np.save\<close>, in order.
  \<^item> \<open>stdout\<close>: the lines printed.
  \<^item> \<open>peers\<close>: the remote end of every WebSocket.
\<close>

definition initial_state :: sys where
  "initial_state =
    \<lparr> data_stream_buffer = [], last_data_time = None, is_receiving = False,
      timeout_task = None, total_batches_received = 0, total_points_received = 0,
      active_connections = [], tasks = [], list_objects = [], buffer_object = 0,
      broadcast_tasks = [], npy_files = [],
      stdout = [], peers = (\<lambda>_. \<lparr> alive = True, inbox = [] \<rparr>) \<rparr>"

definition STREAM_TIMEOUT_SEC :: int where
  "STREAM_TIMEOUT_SEC = 5"

definition timeout_exceeded :: "time \<Rightarrow> time \<Rightarrow> bool" where
  \<comment> \<open>\<^verbatim>\<open>(datetime.now() - last_data_time).total_seconds() > STREAM_TIMEOUT_SEC\<close>\<close>
  "timeout_exceeded now t \<longleftrightarrow> now - t > STREAM_TIMEOUT_SEC * 1000000"

section \<open>NumPy\<close>

definition int32_range :: "int \<Rightarrow> bool" where
  "int32_range x \<longleftrightarrow> - (2 ^ 31) \<le> x \<and> x < 2 ^ 31"

definition np_array_int32 :: "int list \<Rightarrow> exn + int list" where
  \<comment> \<open>\<^verbatim>\<open>np.array(xs, dtype=np.int32)\<close>: NumPy 2 raises on a value outside the type
      (modelled here); earlier versions wrap some such values around instead.\<close>
  "np_array_int32 xs = (if list_all int32_range xs then Inr xs else Inl OverflowError)"

definition np_save :: "io_outcome \<Rightarrow> int list \<Rightarrow> int list list \<Rightarrow> exn + int list list" where
  "np_save io a files = (case io of WriteOk \<Rightarrow> Inr (files @ [a]) | WriteFails \<Rightarrow> Inl OSError)"

definition np_mean :: "int list \<Rightarrow> float" where
  \<comment> \<open>The mean of an array of machine integers: the exact mean, rounding not modelled.\<close>
  "np_mean xs = (if xs = [] then NaN else Float (real_of_int (sum_list xs) / real (length xs)))"

definition int64_range :: "int \<Rightarrow> bool" where
  "int64_range x \<longleftrightarrow> - (2 ^ 63) \<le> x \<and> x < 2 ^ 63"

definition uint64_range :: "int \<Rightarrow> bool" where
  "uint64_range x \<longleftrightarrow> 0 \<le> x \<and> x < 2 ^ 64"

definition np_mean_list :: "int list \<Rightarrow> exn + float" where
  \<comment> \<open>\<^verbatim>\<open>np.mean\<close> of a Python list of integers (NumPy 2). Integers that all fit one
      64-bit type become an array of that type, whose mean is computed in floating
      point. Otherwise they stay Python objects: their sum is a Python integer, and its
      division by the NumPy count raises OverflowError when the sum is outside the
      64-bit signed range.\<close>
  "np_mean_list xs =
    (if list_all int64_range xs \<or> list_all uint64_range xs \<or> int64_range (sum_list xs)
     then Inr (np_mean xs) else Inl OverflowError)"

fun np_min :: "int list \<Rightarrow> exn + int" where
  "np_min [] = Inl ValueError"
| "np_min (x # xs) = Inr (fold min xs x)"

fun np_max :: "int list \<Rightarrow> exn + int" where
  "np_max [] = Inl ValueError"
| "np_max (x # xs) = Inr (fold max xs x)"

definition np_std :: "int list \<Rightarrow> float" where
  "np_std xs =
    (if xs = [] then NaN
     else let m = real_of_int (sum_list xs) / real (length xs)
          in Float (sqrt (sum_list (map (\<lambda>x. (real_of_int x - m) ^ 2) xs) / real (length xs))))"

section \<open>Session persister\<close>

definition save_buffer_to_npy :: "io_outcome \<Rightarrow> sys \<Rightarrow> sys" where
  "save_buffer_to_npy io s =
    (if data_stream_buffer s = [] then s\<lparr>stdout := stdout s @ [NpyNoData]\<rparr>
     else
       (case np_array_int32 (data_stream_buffer s) of
          Inl e \<Rightarrow> s\<lparr>stdout := stdout s @ [NpyError e]\<rparr>
        | Inr data_array \<Rightarrow>
            (case np_save io data_array (npy_files s) of
               Inl e \<Rightarrow> s\<lparr>stdout := stdout s @ [NpyError e]\<rparr>
             | Inr files \<Rightarrow>
                 (case np_min data_array of
                    Inl e \<Rightarrow> s\<lparr>npy_files := files, stdout := stdout s @ [NpyError e]\<rparr>
                  | Inr min_val \<Rightarrow>
                      (case np_max data_array of
                         Inl e \<Rightarrow> s\<lparr>npy_files := files, stdout := stdout s @ [NpyError e]\<rparr>
                       | Inr max_val \<Rightarrow>
                           s\<lparr>npy_files := files,
                             stdout := stdout s @
                               [NpySaved (length (data_stream_buffer s)) (np_mean data_array)
                                  min_val max_val]\<rparr>)))))"

section \<open>Timeout monitor\<close>

definition while_is_receiving :: "sys \<Rightarrow> task_state" where
  \<comment> \<open>The loop test: the task sleeps again or returns.\<close>
  "while_is_receiving s = (if is_receiving s then Sleeping else Finished)"

definition monitor_wake :: "time \<Rightarrow> io_outcome \<Rightarrow> sys \<Rightarrow> task_state \<times> sys" where
  \<comment> \<open>From the end of the sleep to the next suspension point or the return.\<close>
  "monitor_wake now io s =
    (case last_data_time s of
       None \<Rightarrow> (while_is_receiving s, s)
     | Some t \<Rightarrow>
         if timeout_exceeded now t then
           let s1 = s\<lparr>stdout := stdout s @ [SessionTimeout (now - t)]\<rparr>;
               s2 = save_buffer_to_npy io s1
           in (Finished,
               s2\<lparr>data_stream_buffer := [], is_receiving := False, last_data_time := None\<rparr>)
         else (while_is_receiving s, s))"

definition check_stream_timeout :: "nat \<Rightarrow> time \<Rightarrow> io_outcome \<Rightarrow> sys \<Rightarrow> sys" where
  \<comment> \<open>One scheduling step of task \<open>i\<close>; a task that does not exist or has returned does nothing.\<close>
  "check_stream_timeout i now io s =
    (if i < length (tasks s) then
       (case tasks s ! i of
          Created \<Rightarrow> s\<lparr>tasks := (tasks s)[i := while_is_receiving s]\<rparr>
        | Sleeping \<Rightarrow>
            (case monitor_wake now io s of
               (st, s') \<Rightarrow> s'\<lparr>tasks := (tasks s')[i := st]\<rparr>)
        | Finished \<Rightarrow> s)
     else s)"

section \<open>Ingestion\<close>

record response =
  resp_status :: string
  received_count :: nat

definition extend_object :: "nat \<Rightarrow> int list \<Rightarrow> int list list \<Rightarrow> int list list" where
  \<comment> \<open>\<^verbatim>\<open>extend\<close> on the list object \<open>i\<close>.\<close>
  "extend_object i xs objs = (if i < length objs then objs[i := objs ! i @ xs] else objs)"

definition accept_batch :: "int list \<Rightarrow> time \<Rightarrow> sys \<Rightarrow> sys" where
  \<comment> \<open>Lines 149 to 165: the critical section and the creation of the broadcast task.
      The list \<^verbatim>\<open>raw_z_values_list\<close> is a new object, \<open>length (list_objects s)\<close>.\<close>
  "accept_batch raw_z_values_list now s =
    (let obj = length (list_objects s);
         s0 = s\<lparr>list_objects := list_objects s @ [raw_z_values_list]\<rparr>;
         s1 = (if \<not> is_receiving s0 then
                 s0\<lparr>stdout := stdout s0 @ [SessionStarted],
                    is_receiving := True,
                    data_stream_buffer := raw_z_values_list,
                    buffer_object := obj,
                    total_batches_received := 0,
                    total_points_received := 0,
                    tasks := tasks s0 @ [Created],
                    timeout_task := Some (length (tasks s0))\<rparr>
               else
                 s0\<lparr>data_stream_buffer := data_stream_buffer s0 @ raw_z_values_list,
                    list_objects :=
                      extend_object (buffer_object s0) raw_z_values_list (list_objects s0)\<rparr>);
         s2 = s1\<lparr>last_data_time := Some now,
                 total_batches_received := total_batches_received s1 + 1,
                 total_points_received := total_points_received s1 + length raw_z_values_list\<rparr>
     in if active_connections s2 \<noteq> [] then
          s2\<lparr>broadcast_tasks := broadcast_tasks s2 @ [BcCreated obj]\<rparr>
        else s2)"

definition receive_co2_raw_data ::
  "int list \<Rightarrow> time \<Rightarrow> sys \<Rightarrow> (failure + response) \<times> sys" where
  \<comment> \<open>The handler from line 146 on, given the list \<^verbatim>\<open>raw_z_values_list\<close> extracted from the
      body. An exception that leaves the handler is answered as a server error.\<close>
  "receive_co2_raw_data raw_z_values_list now s =
    (if raw_z_values_list = [] then (Inl (HTTPException 400 ''No valid data''), s)
     else
       let s3 = accept_batch raw_z_values_list now s;
           ok = Inr \<lparr>resp_status = ''success'', received_count = length raw_z_values_list\<rparr>
       in if total_batches_received s3 mod 10 = 0 then
            (case np_mean_list (data_stream_buffer s3) of
               Inl e \<Rightarrow> (Inl (ServerError e), s3)
             | Inr avg_val \<Rightarrow>
                 (ok, s3\<lparr>stdout := stdout s3 @
                        [DataSummary (total_batches_received s3) (total_points_received s3)
                           avg_val]\<rparr>))
          else (ok, s3))"

section \<open>Stats reporter\<close>

record stats =
  st_status :: string
  st_total_points :: nat
  st_total_batches :: nat
  st_average :: float
  st_min :: int
  st_max :: int
  st_std :: float
  st_last_update :: "time option"

datatype stats_response = NoData | Stats stats

definition get_stats :: "sys \<Rightarrow> exn + stats_response" where
  "get_stats s =
    (if data_stream_buffer s = [] then Inr NoData
     else
       (case np_array_int32 (data_stream_buffer s) of
          Inl e \<Rightarrow> Inl e
        | Inr data_array \<Rightarrow>
            (case np_min data_array of
               Inl e \<Rightarrow> Inl e
             | Inr min_val \<Rightarrow>
                 (case np_max data_array of
                    Inl e \<Rightarrow> Inl e
                  | Inr max_val \<Rightarrow>
                      Inr (Stats
                        \<lparr> st_status = (if is_receiving s then ''active'' else ''ended''),
                          st_total_points = length (data_stream_buffer s),
                          st_total_batches = total_batches_received s,
                          st_average = np_mean data_array,
                          st_min = min_val,
                          st_max = max_val,
                          st_std = np_std data_array,
                          st_last_update = last_data_time s \<rparr>)))))"

section \<open>Broadcast hub\<close>

definition digit_char :: "nat \<Rightarrow> char" where
  "digit_char n = ''0123456789'' ! (n mod 10)"

fun str_nat :: "nat \<Rightarrow> string" where
  "str_nat n = (if n < 10 then [digit_char n] else str_nat (n div 10) @ [digit_char n])"

definition str_int :: "int \<Rightarrow> string" where
  "str_int i = (if i < 0 then CHR ''-'' # str_nat (nat (- i)) else str_nat (nat i))"

fun join_items :: "string list \<Rightarrow> string" where
  "join_items [] = []"
| "join_items [x] = x"
| "join_items (x # y # ys) = x @ '', '' @ join_items (y # ys)"

definition json_dumps :: "int list \<Rightarrow> string" where
  "json_dumps data = ''['' @ join_items (map str_int data) @ '']''"

definition send_text :: "conn \<Rightarrow> string \<Rightarrow> (conn \<Rightarrow> peer) \<Rightarrow> exn + (conn \<Rightarrow> peer)" where
  \<comment> \<open>Sending on a channel whose remote end is gone raises; otherwise the text arrives.\<close>
  "send_text c msg ps =
    (if alive (ps c) then Inr (ps(c := (ps c)\<lparr>inbox := inbox (ps c) @ [msg]\<rparr>))
     else Inl SendError)"

definition connect :: "conn \<Rightarrow> sys \<Rightarrow> sys" where
  "connect c s =
    s\<lparr>active_connections := active_connections s @ [c],
      stdout := stdout s @ [WsClientConnected (length (active_connections s) + 1)]\<rparr>"

definition disconnect :: "conn \<Rightarrow> sys \<Rightarrow> sys" where
  "disconnect c s =
    (if c \<in> set (active_connections s) then
       s\<lparr>active_connections := remove1 c (active_connections s),
         stdout := stdout s @ [WsClientDisconnected (length (active_connections s) - 1)]\<rparr>
     else s)"

definition next_send :: "nat \<Rightarrow> string \<Rightarrow> nat \<Rightarrow> conn list \<Rightarrow> sys \<Rightarrow> sys" where
  \<comment> \<open>The \<^verbatim>\<open>for\<close> loop of task \<open>k\<close> asks its iterator for the next connection: the element
      at index \<open>idx\<close> of the list as it is now, on which the send then waits; or, past the
      end of the list, the loop ends, the failed connections are removed and the task
      returns.\<close>
  "next_send k message idx disconnected s =
    (if idx < length (active_connections s) then
       s\<lparr>broadcast_tasks := (broadcast_tasks s)
           [k := BcSending message (active_connections s ! idx) (idx + 1) disconnected]\<rparr>
     else
       (fold disconnect disconnected s)
         \<lparr>broadcast_tasks := (broadcast_tasks s)[k := BcDone]\<rparr>)"

definition broadcast_data :: "nat \<Rightarrow> sys \<Rightarrow> sys" where
  \<comment> \<open>One scheduling step of broadcast task \<open>k\<close>, from one suspension point to the next.
      The first step serialises the list object as it is then. A later step ends a send:
      the text has arrived, or the send raises and the connection is noted.\<close>
  "broadcast_data k s =
    (if k < length (broadcast_tasks s) then
       (case broadcast_tasks s ! k of
          BcCreated d \<Rightarrow>
            (if d < length (list_objects s)
             then next_send k (json_dumps (list_objects s ! d)) 0 [] s else s)
        | BcSending message c idx disconnected \<Rightarrow>
            (case send_text c message (peers s) of
               Inr ps \<Rightarrow> next_send k message idx disconnected (s\<lparr>peers := ps\<rparr>)
             | Inl e \<Rightarrow>
                 next_send k message idx (disconnected @ [c])
                   (s\<lparr>stdout := stdout s @ [WsBroadcastError e]\<rparr>))
        | BcDone \<Rightarrow> s)
     else s)"

section \<open>The event loop\<close>

datatype event =
    Post "int list" time
  | MonitorStep nat time io_outcome
  | GetStats
  | WsConnect conn
  | WsDisconnect conn
  | PeerClose conn
  | BroadcastStep nat

fun step :: "event \<Rightarrow> sys \<Rightarrow> sys" where
  "step (Post batch now) s = snd (receive_co2_raw_data batch now s)"
| "step (MonitorStep i now io) s = check_stream_timeout i now io s"
| "step GetStats s = s"
| "step (WsConnect c) s = connect c s"
| "step (WsDisconnect c) s = disconnect c s"
| "step (PeerClose c) s = s\<lparr>peers := (peers s)(c := (peers s c)\<lparr>alive := False\<rparr>)\<rparr>"
| "step (BroadcastStep k) s = broadcast_data k s"

fun run :: "event list \<Rightarrow> sys \<Rightarrow> sys" where
  "run [] s = s"
| "run (e # es) s = run es (step e s)"

definition POLL_INTERVAL_SEC :: int where
  "POLL_INTERVAL_SEC = 1"

partial_function (option) check_stream_timeout_alone ::
  "nat \<Rightarrow> io_outcome \<Rightarrow> time \<Rightarrow> sys \<Rightarrow> sys option" where
  "check_stream_timeout_alone i io now s =
    (if i < length (tasks s) \<and> tasks s ! i \<noteq> Finished then
       check_stream_timeout_alone i io (now + POLL_INTERVAL_SEC * 1000000)
         (check_stream_timeout i now io s)
     else Some s)"

text \<open>
  \<open>check_stream_timeout_alone\<close> is the coroutine of monitor \<open>i\<close> run to its return while
  nothing else happens: no further input arrives, and the write, if it comes to one, has
  outcome \<open>io\<close>. The task takes its next step at time \<open>now\<close>; every step that does not
  return ends in \<^verbatim>\<open>await asyncio.sleep(1.0)\<close>, so the following step is taken one polling
  interval later (the sleep is taken to last exactly its argument, on the clock that
  \<^verbatim>\<open>datetime.now()\<close> reads). The result is \<open>None\<close> if the task never returns.
\<close>

section \<open>Notions used by the properties\<close>

definition session_inv :: "sys \<Rightarrow> bool" where
  \<comment> \<open>The buffer is non-empty while receiving; the timestamp is set exactly while receiving.\<close>
  "session_inv s \<longleftrightarrow>
     (is_receiving s \<longrightarrow> data_stream_buffer s \<noteq> []) \<and>
     (last_data_time s \<noteq> None \<longleftrightarrow> is_receiving s)"

definition armed :: "task_state \<Rightarrow> bool" where
  "armed st \<longleftrightarrow> st \<noteq> Finished"

definition armed_count :: "sys \<Rightarrow> nat" where
  \<comment> \<open>The monitor tasks that have not returned.\<close>
  "armed_count s = length (filter armed (tasks s))"

fun is_timeout_line :: "log_event \<Rightarrow> bool" where
  "is_timeout_line (SessionTimeout _) = True"
| "is_timeout_line _ = False"

definition started_count :: "sys \<Rightarrow> nat" where
  \<comment> \<open>Sessions opened so far: the lines \<^verbatim>\<open>[SESSION] New data stream started.\<close>\<close>
  "started_count s = length (filter (\<lambda>e. e = SessionStarted) (stdout s))"

definition closed_count :: "sys \<Rightarrow> nat" where
  \<comment> \<open>Sessions closed so far: the lines \<^verbatim>\<open>[SESSION] Timeout: ...\<close>\<close>
  "closed_count s = length (filter is_timeout_line (stdout s))"

fun batches_of :: "event list \<Rightarrow> int list list" where
  "batches_of [] = []"
| "batches_of (Post batch now # es) = batch # batches_of es"
| "batches_of (e # es) = batches_of es"

fun within_threshold :: "time \<Rightarrow> event list \<Rightarrow> bool" where
  \<comment> \<open>Every batch is non-empty, and every batch and every tick of a monitor comes no
      later than the inactivity threshold after the latest batch before it
      (\<open>t\<close>: the time of the latest batch so far).\<close>
  "within_threshold t [] = True"
| "within_threshold t (Post batch now # es) =
     (batch \<noteq> [] \<and> \<not> timeout_exceeded now t \<and> within_threshold now es)"
| "within_threshold t (MonitorStep i now io # es) =
     (\<not> timeout_exceeded now t \<and> within_threshold t es)"
| "within_threshold t (e # es) = within_threshold t es"

fun is_post :: "event \<Rightarrow> bool" where
  "is_post (Post batch now) = True"
| "is_post e = False"

definition no_input :: "event list \<Rightarrow> bool" where
  "no_input es \<longleftrightarrow> list_all (\<lambda>e. \<not> is_post e) es"

definition session_line :: "log_event \<Rightarrow> bool" where
  \<comment> \<open>The lines printed by the session and the persister, as opposed to the hub's.\<close>
  "session_line e =
    (case e of
       WsClientConnected _ \<Rightarrow> False
     | WsClientDisconnected _ \<Rightarrow> False
     | WsBroadcastError _ \<Rightarrow> False
     | _ \<Rightarrow> True)"

definition same_session :: "sys \<Rightarrow> sys \<Rightarrow> bool" where
  "same_session s s' \<longleftrightarrow>
     data_stream_buffer s' = data_stream_buffer s \<and> last_data_time s' = last_data_time s \<and>
     is_receiving s' = is_receiving s \<and> timeout_task s' = timeout_task s \<and>
     total_batches_received s' = total_batches_received s \<and>
     total_points_received s' = total_points_received s \<and>
     tasks s' = tasks s \<and> list_objects s' = list_objects s \<and>
     buffer_object s' = buffer_object s \<and> npy_files s' = npy_files s \<and>
     filter session_line (stdout s') = filter session_line (stdout s)"

definition monitor_known :: "sys \<Rightarrow> bool" where
  \<comment> \<open>While receiving, \<^verbatim>\<open>timeout_task\<close> is a monitor that has not returned.\<close>
  "monitor_known s \<longleftrightarrow>
     (is_receiving s \<longrightarrow>
        (\<exists>i. timeout_task s = Some i \<and> i < length (tasks s) \<and> tasks s ! i \<noteq> Finished))"

definition buffer_shared :: "sys \<Rightarrow> bool" where
  \<comment> \<open>While receiving, the list object of the session holds what the buffer holds.\<close>
  "buffer_shared s \<longleftrightarrow>
     (is_receiving s \<longrightarrow>
        buffer_object s < length (list_objects s) \<and>
        list_objects s ! buffer_object s = data_stream_buffer s)"

definition monitor_inv :: "sys \<Rightarrow> bool" where
  \<comment> \<open>One live monitor exactly while receiving; one more session opened than closed
      exactly while receiving; no more files than closed sessions.\<close>
  "monitor_inv s \<longleftrightarrow>
     armed_count s = (if is_receiving s then 1 else 0) \<and>
     started_count s = closed_count s + (if is_receiving s then 1 else 0) \<and>
     length (npy_files s) \<le> closed_count s"

section \<open>The hub leaves the session alone\<close>

lemma same_session_refl: "same_session s s"
  by (simp add: same_session_def)

lemma same_session_trans: "same_session a b \<Longrightarrow> same_session b c \<Longrightarrow> same_session a c"
  by (simp add: same_session_def)

lemma disconnect_same: "same_session s (disconnect c s)"
  by (simp add: same_session_def disconnect_def session_line_def)

lemma connect_same: "same_session s (connect c s)"
  by (simp add: same_session_def connect_def session_line_def)

lemma fold_disconnect_same: "same_session s (fold disconnect ds s)"
proof (induction ds arbitrary: s)
  case Nil
  show ?case by (simp add: same_session_refl)
next
  case (Cons d ds)
  have "same_session s (disconnect d s)" by (rule disconnect_same)
  moreover have "same_session (disconnect d s) (fold disconnect ds (disconnect d s))" by (rule Cons.IH)
  ultimately show ?case using same_session_trans by auto
qed

lemma next_send_same: "same_session s (next_send k message idx disconnected s)"
proof (cases "idx < length (active_connections s)")
  case True
  then show ?thesis by (simp add: next_send_def same_session_def)
next
  case False
  have "same_session s (fold disconnect disconnected s)" by (rule fold_disconnect_same)
  then show ?thesis using False by (simp add: next_send_def same_session_def)
qed

lemma broadcast_data_same: "same_session s (broadcast_data k s)"
proof (cases "k < length (broadcast_tasks s)")
  case False
  then show ?thesis by (simp add: broadcast_data_def same_session_refl)
next
  case True
  show ?thesis
  proof (cases "broadcast_tasks s ! k")
    case (BcCreated d)
    then show ?thesis using True
      by (simp add: broadcast_data_def same_session_refl next_send_same)
  next
    case (BcSending message c idx disconnected)
    show ?thesis
    proof (cases "send_text c message (peers s)")
      case (Inl e)
      let ?s = "s\<lparr>stdout := stdout s @ [WsBroadcastError e]\<rparr>"
      have "same_session s ?s" by (simp add: same_session_def session_line_def)
      moreover have "same_session ?s (next_send k message idx (disconnected @ [c]) ?s)"
        by (rule next_send_same)
      ultimately show ?thesis using True BcSending Inl
        by (auto simp: broadcast_data_def intro: same_session_trans)
    next
      case (Inr ps)
      let ?s = "s\<lparr>peers := ps\<rparr>"
      have "same_session s ?s" by (simp add: same_session_def)
      moreover have "same_session ?s (next_send k message idx disconnected ?s)"
        by (rule next_send_same)
      ultimately show ?thesis using True BcSending Inr
        by (auto simp: broadcast_data_def intro: same_session_trans)
    qed
  next
    case BcDone
    then show ?thesis using True by (simp add: broadcast_data_def same_session_refl)
  qed
qed

lemma hub_step_same:
  "\<not> is_post e \<Longrightarrow> (\<forall>i now io. e \<noteq> MonitorStep i now io) \<Longrightarrow> same_session s (step e s)"
  by (cases e) (simp_all add: same_session_refl connect_same disconnect_same broadcast_data_same,
      simp add: same_session_def)

section \<open>Ingestion\<close>

lemma receive_empty:
  "receive_co2_raw_data [] now s = (Inl (HTTPException 400 ''No valid data''), s)"
  by (simp add: receive_co2_raw_data_def)

lemma accept_batch_fields:
  "is_receiving (accept_batch b now s)"
  "data_stream_buffer (accept_batch b now s) =
     (if is_receiving s then data_stream_buffer s @ b else b)"
  "last_data_time (accept_batch b now s) = Some now"
  "total_batches_received (accept_batch b now s) =
     (if is_receiving s then total_batches_received s + 1 else 1)"
  "total_points_received (accept_batch b now s) =
     (if is_receiving s then total_points_received s + length b else length b)"
  "tasks (accept_batch b now s) = (if is_receiving s then tasks s else tasks s @ [Created])"
  "npy_files (accept_batch b now s) = npy_files s"
  "active_connections (accept_batch b now s) = active_connections s"
  "peers (accept_batch b now s) = peers s"
  "timeout_task (accept_batch b now s) =
     (if is_receiving s then timeout_task s else Some (length (tasks s)))"
  "stdout (accept_batch b now s) =
     (if is_receiving s then stdout s else stdout s @ [SessionStarted])"
  by (simp_all add: accept_batch_def Let_def)

lemma receive_state:
  assumes "b \<noteq> []"
  shows "\<exists>l. snd (receive_co2_raw_data b now s) =
           (accept_batch b now s)\<lparr>stdout := stdout (accept_batch b now s) @ l\<rparr> \<and>
           (l = [] \<or> (\<exists>n m a. l = [DataSummary n m a]))"
proof (cases "total_batches_received (accept_batch b now s) mod 10 = 0")
  case False
  then have "snd (receive_co2_raw_data b now s) = accept_batch b now s"
    using assms by (simp add: receive_co2_raw_data_def Let_def)
  then show ?thesis by (intro exI [of _ "[]"]) simp
next
  case True
  show ?thesis
  proof (cases "np_mean_list (data_stream_buffer (accept_batch b now s))")
    case (Inl e)
    then have "snd (receive_co2_raw_data b now s) = accept_batch b now s"
      using assms True by (simp add: receive_co2_raw_data_def Let_def)
    then show ?thesis by (intro exI [of _ "[]"]) simp
  next
    case (Inr a)
    then have "snd (receive_co2_raw_data b now s) =
        (accept_batch b now s)\<lparr>stdout := stdout (accept_batch b now s) @
           [DataSummary (total_batches_received (accept_batch b now s))
              (total_points_received (accept_batch b now s)) a]\<rparr>"
      using assms True by (simp add: receive_co2_raw_data_def Let_def)
    then show ?thesis by blast
  qed
qed

lemma receive_result:
  "b \<noteq> [] \<Longrightarrow> fst (receive_co2_raw_data b now s) =
     (if total_batches_received (accept_batch b now s) mod 10 = 0 then
        (case np_mean_list (data_stream_buffer (accept_batch b now s)) of
           Inl e \<Rightarrow> Inl (ServerError e)
         | Inr avg_val \<Rightarrow> Inr \<lparr>resp_status = ''success'', received_count = length b\<rparr>)
      else Inr \<lparr>resp_status = ''success'', received_count = length b\<rparr>)"
  by (simp add: receive_co2_raw_data_def Let_def split: sum.splits)

lemma receive_session:
  assumes "b \<noteq> []"
  shows "is_receiving (snd (receive_co2_raw_data b now s))"
    and "data_stream_buffer (snd (receive_co2_raw_data b now s)) =
           (if is_receiving s then data_stream_buffer s @ b else b)"
    and "last_data_time (snd (receive_co2_raw_data b now s)) = Some now"
    and "total_batches_received (snd (receive_co2_raw_data b now s)) =
           (if is_receiving s then total_batches_received s + 1 else 1)"
    and "total_points_received (snd (receive_co2_raw_data b now s)) =
           (if is_receiving s then total_points_received s + length b else length b)"
    and "tasks (snd (receive_co2_raw_data b now s)) =
           (if is_receiving s then tasks s else tasks s @ [Created])"
    and "npy_files (snd (receive_co2_raw_data b now s)) = npy_files s"
    and "active_connections (snd (receive_co2_raw_data b now s)) = active_connections s"
    and "peers (snd (receive_co2_raw_data b now s)) = peers s"
    and "timeout_task (snd (receive_co2_raw_data b now s)) =
           (if is_receiving s then timeout_task s else Some (length (tasks s)))"
proof -
  obtain l where "snd (receive_co2_raw_data b now s) =
      (accept_batch b now s)\<lparr>stdout := stdout (accept_batch b now s) @ l\<rparr>"
    using receive_state [OF assms] by blast
  then show "is_receiving (snd (receive_co2_raw_data b now s))"
    and "data_stream_buffer (snd (receive_co2_raw_data b now s)) =
           (if is_receiving s then data_stream_buffer s @ b else b)"
    and "last_data_time (snd (receive_co2_raw_data b now s)) = Some now"
    and "total_batches_received (snd (receive_co2_raw_data b now s)) =
           (if is_receiving s then total_batches_received s + 1 else 1)"
    and "total_points_received (snd (receive_co2_raw_data b now s)) =
           (if is_receiving s then total_points_received s + length b else length b)"
    and "tasks (snd (receive_co2_raw_data b now s)) =
           (if is_receiving s then tasks s else tasks s @ [Created])"
    and "npy_files (snd (receive_co2_raw_data b now s)) = npy_files s"
    and "active_connections (snd (receive_co2_raw_data b now s)) = active_connections s"
    and "peers (snd (receive_co2_raw_data b now s)) = peers s"
    and "timeout_task (snd (receive_co2_raw_data b now s)) =
           (if is_receiving s then timeout_task s else Some (length (tasks s)))"
    by (simp_all add: accept_batch_fields)
qed

lemma receive_log:
  assumes "b \<noteq> []"
  shows "started_count (snd (receive_co2_raw_data b now s)) =
           (if is_receiving s then started_count s else started_count s + 1)"
    and "closed_count (snd (receive_co2_raw_data b now s)) = closed_count s"
proof -
  obtain l where l: "snd (receive_co2_raw_data b now s) =
      (accept_batch b now s)\<lparr>stdout := stdout (accept_batch b now s) @ l\<rparr>"
    "l = [] \<or> (\<exists>n m a. l = [DataSummary n m a])"
    using receive_state [OF assms] by blast
  show "started_count (snd (receive_co2_raw_data b now s)) =
           (if is_receiving s then started_count s else started_count s + 1)"
    using l by (auto simp: started_count_def accept_batch_fields)
  show "closed_count (snd (receive_co2_raw_data b now s)) = closed_count s"
    using l by (auto simp: closed_count_def accept_batch_fields)
qed

section \<open>Persister and monitor\<close>

lemma np_min_Inr: "xs \<noteq> [] \<Longrightarrow> \<exists>m. np_min xs = Inr m"
  by (cases xs) simp_all

lemma np_max_Inr: "xs \<noteq> [] \<Longrightarrow> \<exists>m. np_max xs = Inr m"
  by (cases xs) simp_all

lemma save_frame:
  "data_stream_buffer (save_buffer_to_npy io s) = data_stream_buffer s"
  "last_data_time (save_buffer_to_npy io s) = last_data_time s"
  "is_receiving (save_buffer_to_npy io s) = is_receiving s"
  "timeout_task (save_buffer_to_npy io s) = timeout_task s"
  "total_batches_received (save_buffer_to_npy io s) = total_batches_received s"
  "total_points_received (save_buffer_to_npy io s) = total_points_received s"
  "active_connections (save_buffer_to_npy io s) = active_connections s"
  "tasks (save_buffer_to_npy io s) = tasks s"
  "broadcast_tasks (save_buffer_to_npy io s) = broadcast_tasks s"
  "peers (save_buffer_to_npy io s) = peers s"
  "list_objects (save_buffer_to_npy io s) = list_objects s"
  "buffer_object (save_buffer_to_npy io s) = buffer_object s"
  by (simp_all add: save_buffer_to_npy_def split: sum.splits)

lemma save_files:
  "npy_files (save_buffer_to_npy io s) =
     (if data_stream_buffer s \<noteq> [] \<and> list_all int32_range (data_stream_buffer s) \<and> io = WriteOk
      then npy_files s @ [data_stream_buffer s] else npy_files s)"
  by (cases io) (auto simp: save_buffer_to_npy_def np_array_int32_def np_save_def split: sum.splits)

lemma save_line:
  "\<exists>e. stdout (save_buffer_to_npy io s) = stdout s @ [e] \<and> e \<noteq> SessionStarted \<and> \<not> is_timeout_line e"
  by (auto simp: save_buffer_to_npy_def split: sum.splits)

lemma cst_quiet:
  assumes "\<not> (i < length (tasks s) \<and> tasks s ! i = Sleeping \<and>
              (\<exists>t. last_data_time s = Some t \<and> timeout_exceeded now t))"
  shows "check_stream_timeout i now io s =
           s\<lparr>tasks := (if i < length (tasks s) \<and> tasks s ! i \<noteq> Finished
                        then (tasks s)[i := while_is_receiving s] else tasks s)\<rparr>"
  using assms
  by (auto simp: check_stream_timeout_def monitor_wake_def split: task_state.splits option.splits)

lemma cst_close:
  assumes "i < length (tasks s)" "tasks s ! i = Sleeping"
    "last_data_time s = Some t" "timeout_exceeded now t"
  shows "check_stream_timeout i now io s =
           (save_buffer_to_npy io (s\<lparr>stdout := stdout s @ [SessionTimeout (now - t)]\<rparr>))
             \<lparr>data_stream_buffer := [], is_receiving := False, last_data_time := None,
              tasks := (tasks s)[i := Finished]\<rparr>"
  using assms
  by (simp add: check_stream_timeout_def monitor_wake_def Let_def save_frame)

lemma filter_update_count:
  "i < length xs \<Longrightarrow>
     length (filter P (xs[i := v])) + (if P (xs ! i) then 1 else 0) =
     length (filter P xs) + (if P v then 1 else 0)"
proof (induction xs arbitrary: i)
  case Nil
  then show ?case by simp
next
  case (Cons x xs)
  show ?case
  proof (cases i)
    case 0
    then show ?thesis by simp
  next
    case (Suc j)
    then have "j < length xs" using Cons.prems by simp
    from Cons.IH [OF this] show ?thesis using Suc by simp
  qed
qed


lemma monitor_inv_initial: "monitor_inv initial_state"
  by (simp add: monitor_inv_def initial_state_def armed_count_def started_count_def closed_count_def)

lemma started_count_session:
  "started_count s = length (filter (\<lambda>e. e = SessionStarted) (filter session_line (stdout s)))"
proof -
  have "(\<lambda>e. session_line e \<and> e = SessionStarted) = (\<lambda>e. e = SessionStarted)"
    by (auto simp: session_line_def)
  then show ?thesis by (simp add: started_count_def)
qed

lemma closed_count_session:
  "closed_count s = length (filter is_timeout_line (filter session_line (stdout s)))"
proof -
  have "\<And>e. is_timeout_line e \<Longrightarrow> session_line e"
    by (case_tac e) (simp_all add: session_line_def)
  then have "(\<lambda>e. session_line e \<and> is_timeout_line e) = is_timeout_line"
    by auto
  then show ?thesis by (simp add: closed_count_def)
qed

lemma same_session_counts:
  assumes "same_session s s'"
  shows "started_count s' = started_count s" and "closed_count s' = closed_count s"
    and "armed_count s' = armed_count s"
  using assms
  by (simp_all add: started_count_session closed_count_session armed_count_def same_session_def)

lemma monitor_inv_same: "same_session s s' \<Longrightarrow> monitor_inv s \<Longrightarrow> monitor_inv s'"
  by (simp add: monitor_inv_def same_session_counts) (simp add: same_session_def)

lemma armed_count_pos:
  "i < length (tasks s) \<Longrightarrow> armed (tasks s ! i) \<Longrightarrow> 0 < armed_count s"
  unfolding armed_count_def by (metis filter_empty_conv length_greater_0_conv nth_mem)

lemma monitor_inv_post: "monitor_inv s \<Longrightarrow> monitor_inv (step (Post b now) s)"
proof (cases "b = []")
  case True
  assume "monitor_inv s"
  then show ?thesis using True by (simp add: receive_empty)
next
  case False
  assume "monitor_inv s"
  then show ?thesis using False
    by (simp add: monitor_inv_def armed_count_def receive_session receive_log armed_def)
qed

lemma monitor_inv_tick: 
  assumes "monitor_inv s"
  shows "monitor_inv (step (MonitorStep i now io) s)"
proof (cases "i < length (tasks s) \<and> tasks s ! i = Sleeping \<and>
              (\<exists>t. last_data_time s = Some t \<and> timeout_exceeded now t)")
  case True
  then obtain t where t: "last_data_time s = Some t" "timeout_exceeded now t" by blast
  let ?s1 = "s\<lparr>stdout := stdout s @ [SessionTimeout (now - t)]\<rparr>"
  have eq: "step (MonitorStep i now io) s = (save_buffer_to_npy io ?s1)
             \<lparr>data_stream_buffer := [], is_receiving := False, last_data_time := None,
              tasks := (tasks s)[i := Finished]\<rparr>"
    using cst_close [of i s t now io] True t by simp
  obtain e where e: "stdout (save_buffer_to_npy io ?s1) = stdout ?s1 @ [e]" "e \<noteq> SessionStarted" "\<not> is_timeout_line e"
    using save_line [of io ?s1] by blast
  have arm: "armed (tasks s ! i)" using True by (simp add: armed_def)
  then have pos: "0 < armed_count s" using True armed_count_pos by blast
  then have rec: "is_receiving s" using assms by (auto simp: monitor_inv_def split: if_splits)
  have "length (filter armed ((tasks s)[i := Finished])) + 1 = length (filter armed (tasks s))"
    using filter_update_count [of i "tasks s" armed Finished] True arm by (simp add: armed_def)
  then have a: "length (filter armed ((tasks s)[i := Finished])) = 0"
    using assms rec by (simp add: monitor_inv_def armed_count_def)
  have f: "length (npy_files (save_buffer_to_npy io ?s1)) \<le> length (npy_files s) + 1"
    by (simp add: save_files)
  show ?thesis using assms rec a e f unfolding eq
    by (simp add: monitor_inv_def armed_count_def started_count_def closed_count_def)
next
  case False
  note q = cst_quiet [OF False, of io]
  show ?thesis
  proof (cases "i < length (tasks s) \<and> tasks s ! i \<noteq> Finished")
    case True
    then have arm: "armed (tasks s ! i)" by (simp add: armed_def)
    then have pos: "0 < armed_count s" using True armed_count_pos by blast
    then have rec: "is_receiving s" using assms by (auto simp: monitor_inv_def split: if_splits)
    have "length (filter armed ((tasks s)[i := Sleeping])) = length (filter armed (tasks s))"
      using filter_update_count [of i "tasks s" armed Sleeping] True arm by (simp add: armed_def)
    then show ?thesis using assms rec True q
      by (simp add: monitor_inv_def armed_count_def started_count_def closed_count_def while_is_receiving_def)
  next
    case False
    then have "check_stream_timeout i now io s = s" using q by auto
    then show ?thesis using assms by simp
  qed
qed


lemma event_cases:
  obtains (post) b now where "e = Post b now"
  | (tick) i now io where "e = MonitorStep i now io"
  | (hub) "\<not> is_post e" "\<forall>i now io. e \<noteq> MonitorStep i now io"
  by (cases e) auto

lemma monitor_inv_step:
  assumes "monitor_inv s"
  shows "monitor_inv (step e s)"
proof (cases e rule: event_cases)
  case (post b now)
  then show ?thesis using assms monitor_inv_post by simp
next
  case (tick i now io)
  then show ?thesis using assms monitor_inv_tick by simp
next
  case hub
  then have "same_session s (step e s)" by (rule hub_step_same)
  then show ?thesis using assms monitor_inv_same by blast
qed

lemma monitor_inv_run: "monitor_inv s \<Longrightarrow> monitor_inv (run es s)"
  by (induction es arbitrary: s) (simp_all add: monitor_inv_step)

section \<open>At most one live monitor\<close>

text \<open>
  C7. At most one timeout monitor is live at any time. In every state reached from the
  initial one by any interleaving of ingestion requests, monitor steps, stats queries and
  hub events, the number of monitor tasks that have not returned is 1 while receiving and
  0 otherwise: a session is opened only when no monitor is live, and the monitor that
  closes a session returns in the same step. Hence the sessions opened so far are the
  sessions closed so far plus the one being received, and no more arrays have been
  written than sessions closed: no session is closed or persisted twice.
\<close>

theorem at_most_one_armed_monitor:
  "armed_count (run es initial_state) \<le> 1 \<and>
   armed_count (run es initial_state) = (if is_receiving (run es initial_state) then 1 else 0) \<and>
   started_count (run es initial_state) =
     closed_count (run es initial_state) + (if is_receiving (run es initial_state) then 1 else 0) \<and>
   length (npy_files (run es initial_state)) \<le> closed_count (run es initial_state)"
  using monitor_inv_run [OF monitor_inv_initial, of es] by (simp add: monitor_inv_def)

section \<open>Ingestion requests and the start of a session\<close>

lemma run_append: "run (es @ fs) s = run fs (run es s)"
  by (induction es arbitrary: s) simp_all

lemma run_rejected: "run (map (\<lambda>t. Post [] t) ts) s = s"
  by (induction ts) (simp_all add: receive_empty)

lemma get_stats_empty: "data_stream_buffer s = [] \<Longrightarrow> get_stats s = Inr NoData"
  by (simp add: get_stats_def)

lemma nine_posts:
  "is_receiving (run [Post [1] 0, Post [1] 1, Post [1] 2, Post [1] 3, Post [1] 4, Post [1] 5,
           Post [1] 6, Post [1] 7, Post [1] 8] initial_state) \<and>
   total_batches_received (run [Post [1] 0, Post [1] 1, Post [1] 2, Post [1] 3, Post [1] 4,
           Post [1] 5, Post [1] 6, Post [1] 7, Post [1] 8] initial_state) = 9 \<and>
   data_stream_buffer (run [Post [1] 0, Post [1] 1, Post [1] 2, Post [1] 3, Post [1] 4,
           Post [1] 5, Post [1] 6, Post [1] 7, Post [1] 8] initial_state) =
     [1, 1, 1, 1, 1, 1, 1, 1, 1]"
  by (simp add: receive_session initial_state_def)

lemma mean_of_objects_raises:
  assumes "2 ^ 64 \<le> x"
  shows "np_mean_list [1, 1, 1, 1, 1, 1, 1, 1, 1, x] = Inl OverflowError"
  using assms by (simp add: np_mean_list_def int64_range_def uint64_range_def)

lemma tenth_batch_raises:
  assumes "2 ^ 64 \<le> x"
  shows "fst (receive_co2_raw_data [x] 9
     (run [Post [1] 0, Post [1] 1, Post [1] 2, Post [1] 3, Post [1] 4, Post [1] 5, Post [1] 6,
           Post [1] 7, Post [1] 8] initial_state)) = Inl (ServerError OverflowError) \<and>
   data_stream_buffer (snd (receive_co2_raw_data [x] 9
     (run [Post [1] 0, Post [1] 1, Post [1] 2, Post [1] 3, Post [1] 4, Post [1] 5, Post [1] 6,
           Post [1] 7, Post [1] 8] initial_state))) = [1, 1, 1, 1, 1, 1, 1, 1, 1, x] \<and>
   total_batches_received (snd (receive_co2_raw_data [x] 9
     (run [Post [1] 0, Post [1] 1, Post [1] 2, Post [1] 3, Post [1] 4, Post [1] 5, Post [1] 6,
           Post [1] 7, Post [1] 8] initial_state))) = 10"
proof -
  let ?s = "run [Post [1] 0, Post [1] 1, Post [1] 2, Post [1] 3, Post [1] 4, Post [1] 5,
           Post [1] 6, Post [1] 7, Post [1] 8] initial_state"
  have r: "is_receiving ?s" and n: "total_batches_received ?s = 9"
    and b: "data_stream_buffer ?s = [1, 1, 1, 1, 1, 1, 1, 1, 1]"
    using nine_posts by blast+
  have ne: "[x] \<noteq> ([] :: int list)" by simp
  have f: "fst (receive_co2_raw_data [x] 9 ?s) = Inl (ServerError OverflowError)"
    unfolding receive_result [OF ne]
    by (simp only: accept_batch_fields r n b if_True append.simps mean_of_objects_raises [OF assms])
      simp
  have "data_stream_buffer (snd (receive_co2_raw_data [x] 9 ?s)) = [1, 1, 1, 1, 1, 1, 1, 1, 1, x]"
    unfolding receive_session(2) [OF ne] by (simp only: r b if_True append.simps)
  moreover have "total_batches_received (snd (receive_co2_raw_data [x] 9 ?s)) = 10"
    unfolding receive_session(4) [OF ne] by (simp only: r n if_True)
  ultimately show ?thesis using f by blast
qed

lemma big_reading: "(2::int) ^ 64 \<le> 10 ^ 400"
proof -
  have "(2::int) ^ 64 \<le> 10 ^ 20" by simp
  also have "(10::int) ^ 20 \<le> 10 ^ 400" by (rule power_increasing) simp_all
  finally show ?thesis .
qed

text \<open>
  C4. The tenth batch of a session. Nine batches \<open>[1]\<close> are accepted; the tenth request
  carries the one reading \<open>10 ^ 400\<close> (the line \<^verbatim>\<open>Z 1\<close> followed by 400 zeros). The handler
  appends the batch and counts it (ten batches), and then the mean for the summary line
  of every tenth batch raises OverflowError outside any \<^verbatim>\<open>try\<close>: the request is answered
  as a server error, although its batch is not empty and is in the buffer.
\<close>

theorem tenth_batch_summary_raises:
  "fst (receive_co2_raw_data [10 ^ 400] 9
     (run [Post [1] 0, Post [1] 1, Post [1] 2, Post [1] 3, Post [1] 4, Post [1] 5, Post [1] 6,
           Post [1] 7, Post [1] 8] initial_state)) = Inl (ServerError OverflowError) \<and>
   data_stream_buffer (snd (receive_co2_raw_data [10 ^ 400] 9
     (run [Post [1] 0, Post [1] 1, Post [1] 2, Post [1] 3, Post [1] 4, Post [1] 5, Post [1] 6,
           Post [1] 7, Post [1] 8] initial_state))) = [1, 1, 1, 1, 1, 1, 1, 1, 1, 10 ^ 400] \<and>
   total_batches_received (snd (receive_co2_raw_data [10 ^ 400] 9
     (run [Post [1] 0, Post [1] 1, Post [1] 2, Post [1] 3, Post [1] 4, Post [1] 5, Post [1] 6,
           Post [1] 7, Post [1] 8] initial_state))) = 10"
  by (rule tenth_batch_raises) (rule big_reading)

text \<open>
  C9. When no session is open (in particular after a session has been closed, whatever
  the buffer, counters and files hold from earlier sessions), a new non-empty batch opens
  a session whose buffer is exactly that batch, with batch count 1 and point count the
  length of the batch.
\<close>

theorem new_session_replaces_buffer:
  assumes "\<not> is_receiving s" and "batch \<noteq> []"
  shows "data_stream_buffer (step (Post batch now) s) = batch \<and>
         total_batches_received (step (Post batch now) s) = 1 \<and>
         total_points_received (step (Post batch now) s) = length batch \<and>
         is_receiving (step (Post batch now) s) \<and>
         last_data_time (step (Post batch now) s) = Some now"
  using assms by (simp add: receive_session)

lemma closed_state:
  assumes "i < length (tasks s)" "tasks s ! i = Sleeping"
    "last_data_time s = Some t" "timeout_exceeded now t"
  shows "data_stream_buffer (check_stream_timeout i now io s) = []"
    and "\<not> is_receiving (check_stream_timeout i now io s)"
    and "last_data_time (check_stream_timeout i now io s) = None"
    and "tasks (check_stream_timeout i now io s) = (tasks s)[i := Finished]"
    and "total_batches_received (check_stream_timeout i now io s) = total_batches_received s"
    and "total_points_received (check_stream_timeout i now io s) = total_points_received s"
    and "npy_files (check_stream_timeout i now io s) =
          (if data_stream_buffer s \<noteq> [] \<and> list_all int32_range (data_stream_buffer s) \<and> io = WriteOk
           then npy_files s @ [data_stream_buffer s] else npy_files s)"
  using assms by (simp_all add: cst_close save_frame save_files)


lemmas eval_defs =
  receive_co2_raw_data_def Let_def initial_state_def check_stream_timeout_def monitor_wake_def
  while_is_receiving_def timeout_exceeded_def STREAM_TIMEOUT_SEC_def save_buffer_to_npy_def
  np_array_int32_def int32_range_def np_save_def np_mean_def np_mean_list_def int64_range_def
  uint64_range_def extend_object_def accept_batch_def

theorem new_session_replaces_buffer_witness:
  "\<not> is_receiving (run [Post [1, 2, 3] 0, MonitorStep 0 0 WriteOk, MonitorStep 0 6000000 WriteOk]
        initial_state) \<and>
   npy_files (run [Post [1, 2, 3] 0, MonitorStep 0 0 WriteOk, MonitorStep 0 6000000 WriteOk]
        initial_state) = [[1, 2, 3]] \<and>
   data_stream_buffer (step (Post [4, 5] 9000000)
      (run [Post [1, 2, 3] 0, MonitorStep 0 0 WriteOk, MonitorStep 0 6000000 WriteOk]
        initial_state)) = [4, 5] \<and>
   total_batches_received (step (Post [4, 5] 9000000)
      (run [Post [1, 2, 3] 0, MonitorStep 0 0 WriteOk, MonitorStep 0 6000000 WriteOk]
        initial_state)) = 1 \<and>
   total_points_received (step (Post [4, 5] 9000000)
      (run [Post [1, 2, 3] 0, MonitorStep 0 0 WriteOk, MonitorStep 0 6000000 WriteOk]
        initial_state)) = 2"
proof -
  let ?s = "run [Post [1, 2, 3] 0, MonitorStep 0 0 WriteOk, MonitorStep 0 6000000 WriteOk]
        initial_state"
  have idle: "\<not> is_receiving ?s" by (simp add: eval_defs)
  have files: "npy_files ?s = [[1, 2, 3]]" by (simp add: eval_defs)
  have ne: "[4, 5] \<noteq> ([] :: int list)" by simp
  from new_session_replaces_buffer [OF idle ne, of 9000000] idle files show ?thesis by simp
qed

section \<open>The session invariant\<close>

lemma session_inv_post: "session_inv s \<Longrightarrow> session_inv (step (Post b now) s)"
  by (cases "b = []") (simp_all add: receive_empty, simp add: session_inv_def receive_session)

lemma session_inv_tick:
  assumes "session_inv s"
  shows "session_inv (step (MonitorStep i now io) s)"
proof (cases "i < length (tasks s) \<and> tasks s ! i = Sleeping \<and>
              (\<exists>t. last_data_time s = Some t \<and> timeout_exceeded now t)")
  case True
  then obtain t where "last_data_time s = Some t" "timeout_exceeded now t" by blast
  then show ?thesis using True by (simp add: session_inv_def closed_state)
next
  case False
  show ?thesis using assms cst_quiet [OF False, of io] by (simp add: session_inv_def)
qed

lemma session_inv_same: "same_session s s' \<Longrightarrow> session_inv s \<Longrightarrow> session_inv s'"
  by (simp add: session_inv_def same_session_def)

text \<open>
  C5. Every step of the system (an ingestion request, a step of a timeout monitor, a
  stats query, a hub event) preserves the session invariant: the buffer is non-empty
  while receiving, and the timestamp of the last batch is set exactly while receiving.
\<close>

theorem step_preserves_session_inv:
  assumes "session_inv s"
  shows "session_inv (step e s)"
proof (cases e rule: event_cases)
  case (post b now)
  then show ?thesis using assms session_inv_post by simp
next
  case (tick i now io)
  then show ?thesis using assms session_inv_tick by simp
next
  case hub
  then have "same_session s (step e s)" by (rule hub_step_same)
  then show ?thesis using assms session_inv_same by blast
qed


theorem step_preserves_session_inv_witness:
  "session_inv (run [Post [1, 2, 3] 0, MonitorStep 0 0 WriteOk] initial_state) \<and>
   session_inv (step (MonitorStep 0 6000000 WriteOk)
     (run [Post [1, 2, 3] 0, MonitorStep 0 0 WriteOk] initial_state)) \<and>
   session_inv (step (Post [4] 1000000)
     (run [Post [1, 2, 3] 0, MonitorStep 0 0 WriteOk] initial_state))"
proof -
  have inv: "session_inv (run [Post [1, 2, 3] 0, MonitorStep 0 0 WriteOk] initial_state)"
    by (simp add: session_inv_def eval_defs)
  from step_preserves_session_inv [OF inv, of "MonitorStep 0 6000000 WriteOk"]
    step_preserves_session_inv [OF inv, of "Post [4] 1000000"] inv
  show ?thesis by simp
qed

section \<open>The stats query\<close>

lemma buffer_live_step:
  assumes "data_stream_buffer s \<noteq> [] \<longrightarrow> is_receiving s"
  shows "data_stream_buffer (step e s) \<noteq> [] \<longrightarrow> is_receiving (step e s)"
proof (cases e rule: event_cases)
  case (post b now)
  then show ?thesis using assms
    by (cases "b = []") (simp_all add: receive_empty receive_session)
next
  case (tick i now io)
  show ?thesis
  proof (cases "i < length (tasks s) \<and> tasks s ! i = Sleeping \<and>
              (\<exists>t. last_data_time s = Some t \<and> timeout_exceeded now t)")
    case True
    then obtain t where "last_data_time s = Some t" "timeout_exceeded now t" by blast
    then show ?thesis using True tick by (simp add: closed_state)
  next
    case False
    show ?thesis using assms tick cst_quiet [OF False, of io] by simp
  qed
next
  case hub
  then have "same_session s (step e s)" by (rule hub_step_same)
  then show ?thesis using assms by (simp add: same_session_def)
qed

lemma buffer_live_run:
  "data_stream_buffer s \<noteq> [] \<longrightarrow> is_receiving s \<Longrightarrow>
   data_stream_buffer (run es s) \<noteq> [] \<longrightarrow> is_receiving (run es s)"
proof (induction es arbitrary: s)
  case Nil
  then show ?case by simp
next
  case (Cons e es)
  from buffer_live_step [OF Cons.prems, of e] have
    "data_stream_buffer (step e s) \<noteq> [] \<longrightarrow> is_receiving (step e s)" .
  from Cons.IH [OF this] show ?case by simp
qed

lemma get_stats_Stats:
  "get_stats s = Inr (Stats r) \<Longrightarrow>
     data_stream_buffer s \<noteq> [] \<and>
     st_status r = (if is_receiving s then ''active'' else ''ended'') \<and>
     st_total_points r = length (data_stream_buffer s) \<and>
     st_total_batches r = total_batches_received s \<and>
     st_average r = np_mean (data_stream_buffer s) \<and>
     np_min (data_stream_buffer s) = Inr (st_min r) \<and>
     np_max (data_stream_buffer s) = Inr (st_max r) \<and>
     st_last_update r = last_data_time s"
  by (auto simp: get_stats_def np_array_int32_def split: if_splits sum.splits)

text \<open>
  C10. In every reachable state a non-empty buffer implies that the session is being
  received. So every stats answer that carries statistics has status "active", the
  "ended" branch is never taken, and whenever no session is open the stats query answers
  "no data": the data of a closed session cannot be seen through it.
\<close>

theorem stats_never_ended:
  "(data_stream_buffer (run es initial_state) \<noteq> [] \<longrightarrow> is_receiving (run es initial_state)) \<and>
   (\<forall>r. get_stats (run es initial_state) = Inr (Stats r) \<longrightarrow> st_status r = ''active'') \<and>
   (\<not> is_receiving (run es initial_state) \<longrightarrow> get_stats (run es initial_state) = Inr NoData)"
proof -
  have live: "data_stream_buffer (run es initial_state) \<noteq> [] \<longrightarrow> is_receiving (run es initial_state)"
    by (rule buffer_live_run) (simp add: initial_state_def)
  have "st_status r = ''active''" if "get_stats (run es initial_state) = Inr (Stats r)" for r
    using get_stats_Stats [OF that] live by simp
  moreover have "get_stats (run es initial_state) = Inr NoData" if "\<not> is_receiving (run es initial_state)"
    using that live by (simp add: get_stats_empty)
  ultimately show ?thesis using live by blast
qed

theorem stats_never_ended_witness:
  "data_stream_buffer (run [Post [1, 2, 3] 0] initial_state) \<noteq> [] \<and>
   is_receiving (run [Post [1, 2, 3] 0] initial_state) \<and>
   (\<exists>r. get_stats (run [Post [1, 2, 3] 0] initial_state) = Inr (Stats r) \<and>
        st_status r = ''active'') \<and>
   \<not> is_receiving (run [Post [1, 2, 3] 0, MonitorStep 0 0 WriteOk,
        MonitorStep 0 6000000 WriteOk] initial_state) \<and>
   get_stats (run [Post [1, 2, 3] 0, MonitorStep 0 0 WriteOk,
        MonitorStep 0 6000000 WriteOk] initial_state) = Inr NoData"
proof -
  have a: "data_stream_buffer (run [Post [1, 2, 3] 0] initial_state) \<noteq> []"
    by (simp add: eval_defs)
  have b: "\<exists>r. get_stats (run [Post [1, 2, 3] 0] initial_state) = Inr (Stats r)"
    by (simp add: eval_defs get_stats_def)
  have c: "\<not> is_receiving (run [Post [1, 2, 3] 0, MonitorStep 0 0 WriteOk,
        MonitorStep 0 6000000 WriteOk] initial_state)"
    by (simp add: eval_defs)
  from stats_never_ended [of "[Post [1, 2, 3] 0]"]
    stats_never_ended [of "[Post [1, 2, 3] 0, MonitorStep 0 0 WriteOk,
        MonitorStep 0 6000000 WriteOk]"] a b c
  show ?thesis by blast
qed

section \<open>Accumulation within a session\<close>

lemma within_threshold_hub:
  "\<not> is_post e \<Longrightarrow> \<forall>i now io. e \<noteq> MonitorStep i now io \<Longrightarrow>
     within_threshold t (e # es) = within_threshold t es"
  by (cases e) simp_all

lemma batches_of_not_post: "\<not> is_post e \<Longrightarrow> batches_of (e # es) = batches_of es"
  by (cases e) simp_all

lemma receiving_run:
  assumes "is_receiving s" and "last_data_time s = Some t" and "within_threshold t es"
  shows "is_receiving (run es s) \<and>
         data_stream_buffer (run es s) = data_stream_buffer s @ concat (batches_of es)"
  using assms
proof (induction es arbitrary: s t)
  case Nil
  then show ?case by simp
next
  case (Cons e es)
  show ?case
  proof (cases e rule: event_cases)
    case (post b now)
    with Cons.prems have b: "b \<noteq> []" and w: "within_threshold now es" by simp_all
    have "is_receiving (step e s)" "last_data_time (step e s) = Some now"
      "data_stream_buffer (step e s) = data_stream_buffer s @ b"
      using post b Cons.prems(1) by (simp_all add: receive_session)
    with Cons.IH [of "step e s" now] w post show ?thesis by simp
  next
    case (tick i now io)
    with Cons.prems have q: "\<not> timeout_exceeded now t" and w: "within_threshold t es" by simp_all
    have "\<not> (i < length (tasks s) \<and> tasks s ! i = Sleeping \<and>
              (\<exists>t. last_data_time s = Some t \<and> timeout_exceeded now t))"
      using q Cons.prems(2) by simp
    from cst_quiet [OF this, of io]
    have "is_receiving (step e s)" "last_data_time (step e s) = Some t"
      "data_stream_buffer (step e s) = data_stream_buffer s"
      using tick Cons.prems by simp_all
    with Cons.IH [of "step e s" t] w tick show ?thesis by simp
  next
    case hub
    then have "same_session s (step e s)" by (rule hub_step_same)
    then have "is_receiving (step e s)" "last_data_time (step e s) = Some t"
      "data_stream_buffer (step e s) = data_stream_buffer s"
      using Cons.prems by (simp_all add: same_session_def)
    moreover have "within_threshold t es" using hub Cons.prems(3) within_threshold_hub by blast
    ultimately show ?thesis using Cons.IH [of "step e s" t] hub batches_of_not_post [of e es]
      by simp
  qed
qed

lemma within_threshold_take: "within_threshold t es \<Longrightarrow> within_threshold t (take k es)"
proof (induction es arbitrary: t k)
  case Nil
  then show ?case by simp
next
  case (Cons e es)
  show ?case
  proof (cases k)
    case 0
    then show ?thesis by simp
  next
    case (Suc j)
    show ?thesis using Cons.prems Cons.IH Suc by (cases e) simp_all
  qed
qed

text \<open>
  C1. Starting with no session open, let a non-empty batch arrive at time \<open>now\<close>, followed
  by any events in which every further batch is non-empty and every batch and every
  monitor tick comes no later than the inactivity threshold after the latest batch before
  it. Then after every prefix of these events the session is being received, and the
  buffer is the first batch followed by the later batches in order of arrival.
\<close>

theorem timely_batches_accumulate:
  assumes "\<not> is_receiving s" and "batch \<noteq> []" and "within_threshold now es"
  shows "is_receiving (run (take k es) (step (Post batch now) s)) \<and>
         data_stream_buffer (run (take k es) (step (Post batch now) s)) =
           batch @ concat (batches_of (take k es))"
proof -
  let ?s = "step (Post batch now) s"
  have "is_receiving ?s" "last_data_time ?s = Some now" "data_stream_buffer ?s = batch"
    using assms(1,2) by (simp_all add: receive_session)
  moreover have "within_threshold now (take k es)"
    using assms(3) by (rule within_threshold_take)
  ultimately show ?thesis using receiving_run [of ?s now "take k es"] by simp
qed

theorem timely_batches_accumulate_witness:
  "\<not> is_receiving initial_state \<and>
   within_threshold 0 [MonitorStep 0 500000 WriteOk, Post [4, 5] 4000000,
      MonitorStep 0 8500000 WriteOk, Post [6] 9000000] \<and>
   is_receiving (run [MonitorStep 0 500000 WriteOk, Post [4, 5] 4000000,
      MonitorStep 0 8500000 WriteOk, Post [6] 9000000] (step (Post [1, 2, 3] 0) initial_state)) \<and>
   data_stream_buffer (run [MonitorStep 0 500000 WriteOk, Post [4, 5] 4000000,
      MonitorStep 0 8500000 WriteOk, Post [6] 9000000] (step (Post [1, 2, 3] 0) initial_state)) =
     [1, 2, 3, 4, 5, 6] \<and>
   data_stream_buffer (run [MonitorStep 0 500000 WriteOk, Post [4, 5] 4000000]
      (step (Post [1, 2, 3] 0) initial_state)) = [1, 2, 3, 4, 5]"
proof -
  let ?es = "[MonitorStep 0 500000 WriteOk, Post [4, 5] 4000000,
      MonitorStep 0 8500000 WriteOk, Post [6] 9000000]"
  have a: "\<not> is_receiving initial_state" by (simp add: initial_state_def)
  have b: "[1, 2, 3] \<noteq> ([] :: int list)" by simp
  have c: "within_threshold 0 ?es"
    by (simp add: timeout_exceeded_def STREAM_TIMEOUT_SEC_def)
  from timely_batches_accumulate [OF a b c, of 4] timely_batches_accumulate [OF a b c, of 2] a c
  show ?thesis by simp
qed

section \<open>Closure on timeout\<close>

lemma idle_run:
  assumes "\<not> is_receiving s" and "last_data_time s = None" and "data_stream_buffer s = []"
    and "no_input es"
  shows "\<not> is_receiving (run es s) \<and> last_data_time (run es s) = None \<and>
         data_stream_buffer (run es s) = [] \<and> npy_files (run es s) = npy_files s"
  using assms
proof (induction es arbitrary: s)
  case Nil
  then show ?case by simp
next
  case (Cons e es)
  have ni: "no_input es" and np: "\<not> is_post e" using Cons.prems(4) by (simp_all add: no_input_def)
  have "\<not> is_receiving (step e s) \<and> last_data_time (step e s) = None \<and>
        data_stream_buffer (step e s) = [] \<and> npy_files (step e s) = npy_files s"
  proof (cases e rule: event_cases)
    case (post b now)
    then show ?thesis using np by simp
  next
    case (tick i now io)
    have "\<not> (i < length (tasks s) \<and> tasks s ! i = Sleeping \<and>
              (\<exists>t. last_data_time s = Some t \<and> timeout_exceeded now t))"
      using Cons.prems(2) by simp
    from cst_quiet [OF this, of io] show ?thesis using tick Cons.prems by simp
  next
    case hub
    then have "same_session s (step e s)" by (rule hub_step_same)
    then show ?thesis using Cons.prems by (simp add: same_session_def)
  qed
  with Cons.IH [of "step e s"] ni show ?case by simp
qed

lemma session_inv_run: "session_inv s \<Longrightarrow> session_inv (run es s)"
proof (induction es arbitrary: s)
  case Nil
  then show ?case by simp
next
  case (Cons e es)
  have "session_inv (step e s)"
  proof (cases e rule: event_cases)
    case (post b now)
    then show ?thesis using Cons.prems session_inv_post by simp
  next
    case (tick i now io)
    then show ?thesis using Cons.prems session_inv_tick by simp
  next
    case hub
    then have "same_session s (step e s)" by (rule hub_step_same)
    then show ?thesis using Cons.prems session_inv_same by blast
  qed
  then show ?case using Cons.IH by simp
qed

lemma session_inv_initial: "session_inv initial_state"
  by (simp add: session_inv_def initial_state_def)

lemma monitor_known_step:
  assumes "monitor_known s"
  shows "monitor_known (step e s)"
proof (cases e rule: event_cases)
  case (post b now)
  show ?thesis
  proof (cases "b = []")
    case True
    then show ?thesis using assms post by (simp add: receive_empty)
  next
    case False
    show ?thesis
    proof (cases "is_receiving s")
      case True
      then show ?thesis using assms post False by (simp add: monitor_known_def receive_session)
    next
      case False
      then show ?thesis using post \<open>b \<noteq> []\<close> by (simp add: monitor_known_def receive_session)
    qed
  qed
next
  case (tick i now io)
  show ?thesis
  proof (cases "i < length (tasks s) \<and> tasks s ! i = Sleeping \<and>
              (\<exists>t. last_data_time s = Some t \<and> timeout_exceeded now t)")
    case True
    then obtain t where "last_data_time s = Some t" "timeout_exceeded now t" by blast
    then show ?thesis using True tick by (simp add: monitor_known_def closed_state)
  next
    case False
    have eq: "step e s = s\<lparr>tasks := (if i < length (tasks s) \<and> tasks s ! i \<noteq> Finished
                        then (tasks s)[i := while_is_receiving s] else tasks s)\<rparr>"
      using cst_quiet [OF False, of io] tick by simp
    show ?thesis
    proof (cases "is_receiving s")
      case False
      then show ?thesis unfolding eq by (simp add: monitor_known_def)
    next
      case True
      then obtain j where j: "timeout_task s = Some j" "j < length (tasks s)"
        "tasks s ! j \<noteq> Finished"
        using assms by (auto simp: monitor_known_def)
      have "(tasks s)[i := Sleeping] ! j \<noteq> Finished"
        using j by (cases "i = j") simp_all
      then show ?thesis unfolding eq using True j
        by (simp add: monitor_known_def while_is_receiving_def)
    qed
  qed
next
  case hub
  then have "same_session s (step e s)" by (rule hub_step_same)
  then show ?thesis using assms by (simp add: monitor_known_def same_session_def)
qed

lemma monitor_known_run: "monitor_known s \<Longrightarrow> monitor_known (run es s)"
  by (induction es arbitrary: s) (simp_all add: monitor_known_step)

lemma monitor_known_initial: "monitor_known initial_state"
  by (simp add: monitor_known_def initial_state_def)


lemma alone_sleeping:
  assumes "i < length (tasks s)" and "tasks s ! i = Sleeping"
    and "last_data_time s = Some t" and "is_receiving s"
  shows "\<exists>c. check_stream_timeout_alone i io now s = Some (check_stream_timeout i c io s) \<and>
             timeout_exceeded c t \<and> (timeout_exceeded now t \<longrightarrow> c = now) \<and>
             (\<not> timeout_exceeded now t \<longrightarrow>
                \<not> timeout_exceeded (c - POLL_INTERVAL_SEC * 1000000) t)"
proof -
  let ?Q = "\<lambda>now c. check_stream_timeout_alone i io now s = Some (check_stream_timeout i c io s) \<and>
             timeout_exceeded c t \<and> (timeout_exceeded now t \<longrightarrow> c = now) \<and>
             (\<not> timeout_exceeded now t \<longrightarrow>
                \<not> timeout_exceeded (c - POLL_INTERVAL_SEC * 1000000) t)"
  have "\<forall>now. nat (t + STREAM_TIMEOUT_SEC * 1000000 + 1 - now) = n \<longrightarrow> (\<exists>c. ?Q now c)" for n
  proof (induction n rule: less_induct)
    case (less n)
    show ?case
    proof (intro allI impI)
      fix now
      assume n: "nat (t + STREAM_TIMEOUT_SEC * 1000000 + 1 - now) = n"
      show "\<exists>c. ?Q now c"
      proof (cases "timeout_exceeded now t")
        case True
        let ?s' = "check_stream_timeout i now io s"
        have fin: "tasks ?s' = (tasks s)[i := Finished]"
          using closed_state(4) [OF assms(1-3) True] .
        have "check_stream_timeout_alone i io now s =
                check_stream_timeout_alone i io (now + POLL_INTERVAL_SEC * 1000000) ?s'"
          by (subst check_stream_timeout_alone.simps) (simp add: assms)
        also have "\<dots> = Some ?s'"
          by (subst check_stream_timeout_alone.simps) (simp add: fin assms(1))
        finally show ?thesis using True by blast
      next
        case False
        have "\<not> (i < length (tasks s) \<and> tasks s ! i = Sleeping \<and>
              (\<exists>t. last_data_time s = Some t \<and> timeout_exceeded now t))"
          using False assms(3) by simp
        from cst_quiet [OF this, of io] have same: "check_stream_timeout i now io s = s"
          using assms by (simp add: while_is_receiving_def list_update_same_conv)
        have unfold: "check_stream_timeout_alone i io now s =
                check_stream_timeout_alone i io (now + POLL_INTERVAL_SEC * 1000000) s"
          by (subst check_stream_timeout_alone.simps) (simp add: assms same)
        have "nat (t + STREAM_TIMEOUT_SEC * 1000000 + 1 - (now + POLL_INTERVAL_SEC * 1000000)) < n"
          using False n by (simp add: timeout_exceeded_def POLL_INTERVAL_SEC_def)
        from less.IH [OF this] obtain c where
          c: "?Q (now + POLL_INTERVAL_SEC * 1000000) c" by blast
        have "\<not> timeout_exceeded (c - POLL_INTERVAL_SEC * 1000000) t"
        proof (cases "timeout_exceeded (now + POLL_INTERVAL_SEC * 1000000) t")
          case True
          then have "c = now + POLL_INTERVAL_SEC * 1000000" using c by blast
          then show ?thesis using False by simp
        next
          case False
          then show ?thesis using c by blast
        qed
        then show ?thesis using c unfold False by auto
      qed
    qed
  qed
  then show ?thesis by blast
qed

lemma alone_created:
  assumes "i < length (tasks s)" and "tasks s ! i = Created"
    and "last_data_time s = Some t" and "is_receiving s"
  shows "\<exists>c. check_stream_timeout_alone i io now s =
               Some (check_stream_timeout i c io (s\<lparr>tasks := (tasks s)[i := Sleeping]\<rparr>)) \<and>
             timeout_exceeded c t \<and> now + POLL_INTERVAL_SEC * 1000000 \<le> c \<and>
             (\<not> timeout_exceeded now t \<longrightarrow>
                \<not> timeout_exceeded (c - POLL_INTERVAL_SEC * 1000000) t)"
proof -
  let ?s1 = "s\<lparr>tasks := (tasks s)[i := Sleeping]\<rparr>"
  have step1: "check_stream_timeout i now io s = ?s1"
    using assms by (simp add: check_stream_timeout_def while_is_receiving_def)
  have unfold: "check_stream_timeout_alone i io now s =
          check_stream_timeout_alone i io (now + POLL_INTERVAL_SEC * 1000000) ?s1"
    by (subst check_stream_timeout_alone.simps) (simp add: assms step1)
  have a: "i < length (tasks ?s1)" "tasks ?s1 ! i = Sleeping" "last_data_time ?s1 = Some t"
    "is_receiving ?s1"
    using assms by simp_all
  from alone_sleeping [OF a, of io "now + POLL_INTERVAL_SEC * 1000000"] obtain c where c:
    "check_stream_timeout_alone i io (now + POLL_INTERVAL_SEC * 1000000) ?s1 =
       Some (check_stream_timeout i c io ?s1)"
    "timeout_exceeded c t"
    "timeout_exceeded (now + POLL_INTERVAL_SEC * 1000000) t \<longrightarrow>
       c = now + POLL_INTERVAL_SEC * 1000000"
    "\<not> timeout_exceeded (now + POLL_INTERVAL_SEC * 1000000) t \<longrightarrow>
       \<not> timeout_exceeded (c - POLL_INTERVAL_SEC * 1000000) t"
    by blast
  have "now + POLL_INTERVAL_SEC * 1000000 \<le> c"
    using c(2,3) by (cases "timeout_exceeded (now + POLL_INTERVAL_SEC * 1000000) t")
      (auto simp: timeout_exceeded_def POLL_INTERVAL_SEC_def)
  moreover have "\<not> timeout_exceeded (c - POLL_INTERVAL_SEC * 1000000) t"
    if "\<not> timeout_exceeded now t"
    using c(3,4) that by (cases "timeout_exceeded (now + POLL_INTERVAL_SEC * 1000000) t") auto
  ultimately show ?thesis using c(1,2) unfold by auto
qed


lemma closure_summary:
  assumes "i < length (tasks x)" and "tasks x ! i = Sleeping"
    and "last_data_time x = Some t" and "timeout_exceeded c t"
    and "data_stream_buffer x \<noteq> []"
  shows "\<exists>line. stdout (check_stream_timeout i c io x) =
                  stdout x @ [SessionTimeout (c - t), line]"
    and "npy_files (check_stream_timeout i c io x) =
           (if list_all int32_range (data_stream_buffer x) \<and> io = WriteOk
            then npy_files x @ [data_stream_buffer x] else npy_files x)"
    and "data_stream_buffer (check_stream_timeout i c io x) = []"
    and "\<not> is_receiving (check_stream_timeout i c io x)"
    and "last_data_time (check_stream_timeout i c io x) = None"
    and "\<forall>es'. no_input es' \<longrightarrow>
           npy_files (run es' (check_stream_timeout i c io x)) =
           npy_files (check_stream_timeout i c io x)"
proof -
  let ?x1 = "x\<lparr>stdout := stdout x @ [SessionTimeout (c - t)]\<rparr>"
  let ?s' = "check_stream_timeout i c io x"
  have "stdout ?s' = stdout (save_buffer_to_npy io ?x1)"
    using cst_close [OF assms(1-4), of io] by simp
  moreover obtain e where "stdout (save_buffer_to_npy io ?x1) = stdout ?x1 @ [e]"
    using save_line [of io ?x1] by blast
  ultimately show "\<exists>line. stdout ?s' = stdout x @ [SessionTimeout (c - t), line]" by simp
  show "npy_files ?s' =
           (if list_all int32_range (data_stream_buffer x) \<and> io = WriteOk
            then npy_files x @ [data_stream_buffer x] else npy_files x)"
    using assms by (simp add: closed_state)
  show idle: "data_stream_buffer ?s' = []" "\<not> is_receiving ?s'" "last_data_time ?s' = None"
    using assms(1-4) by (simp_all add: closed_state)
  show "\<forall>es'. no_input es' \<longrightarrow> npy_files (run es' ?s') = npy_files ?s'"
    using idle_run [OF idle(2) idle(3) idle(1)] by blast
qed

text \<open>
  C2 (as amended). Let a session be open in a reachable state, with its last batch at
  time \<open>t\<close>, and let no further input arrive. Then the monitor of the session
  (\<^verbatim>\<open>timeout_task\<close>), checking once every polling interval of 1 second from its next step
  at \<open>now\<close> on, returns: at its first check \<open>c\<close> later than 5 seconds after \<open>t\<close> (at most 6
  seconds after \<open>t\<close> when its next step was not yet later than 5 seconds after \<open>t\<close>) it
  persists exactly one snapshot, holding precisely the readings accumulated, provided
  every reading fits a signed 32-bit integer and the write succeeds (otherwise it
  persists none); it clears the buffer, \<open>is_receiving\<close> and the timestamp; and as long
  as no input arrives nothing more is persisted.
\<close>

theorem timeout_monitor_persists_session:
  assumes "last_data_time (run es initial_state) = Some t"
  shows "\<exists>i s' c line.
     timeout_task (run es initial_state) = Some i \<and>
     check_stream_timeout_alone i io now (run es initial_state) = Some s' \<and>
     timeout_exceeded c t \<and>
     (\<not> timeout_exceeded now t \<longrightarrow>
        c - t \<le> (STREAM_TIMEOUT_SEC + POLL_INTERVAL_SEC) * 1000000) \<and>
     stdout s' = stdout (run es initial_state) @ [SessionTimeout (c - t), line] \<and>
     npy_files s' =
       (if list_all int32_range (data_stream_buffer (run es initial_state)) \<and> io = WriteOk
        then npy_files (run es initial_state) @ [data_stream_buffer (run es initial_state)]
        else npy_files (run es initial_state)) \<and>
     data_stream_buffer s' = [] \<and> \<not> is_receiving s' \<and> last_data_time s' = None \<and>
     (\<forall>es'. no_input es' \<longrightarrow> npy_files (run es' s') = npy_files s')"
proof -
  let ?s = "run es initial_state"
  have inv: "session_inv ?s" by (rule session_inv_run) (rule session_inv_initial)
  have known: "monitor_known ?s" by (rule monitor_known_run) (rule monitor_known_initial)
  have rec: "is_receiving ?s" and buf: "data_stream_buffer ?s \<noteq> []"
    using inv assms by (auto simp: session_inv_def)
  obtain i where i: "timeout_task ?s = Some i" "i < length (tasks ?s)" "tasks ?s ! i \<noteq> Finished"
    using known rec by (auto simp: monitor_known_def)
  have bound: "c - t \<le> (STREAM_TIMEOUT_SEC + POLL_INTERVAL_SEC) * 1000000"
    if "\<not> timeout_exceeded (c - POLL_INTERVAL_SEC * 1000000) t" for c
    using that by (simp add: timeout_exceeded_def STREAM_TIMEOUT_SEC_def POLL_INTERVAL_SEC_def)
  show ?thesis
  proof (cases "tasks ?s ! i")
    case Finished
    then show ?thesis using i by simp
  next
    case Sleeping
    from alone_sleeping [OF i(2) Sleeping assms rec, of io now] obtain c where c:
      "check_stream_timeout_alone i io now ?s = Some (check_stream_timeout i c io ?s)"
      "timeout_exceeded c t"
      "\<not> timeout_exceeded now t \<longrightarrow> \<not> timeout_exceeded (c - POLL_INTERVAL_SEC * 1000000) t"
      by blast
    note sum = closure_summary [OF i(2) Sleeping assms c(2) buf, of io]
    obtain line where "stdout (check_stream_timeout i c io ?s) =
        stdout ?s @ [SessionTimeout (c - t), line]"
      using sum(1) by blast
    then show ?thesis using i(1) c bound [of c] sum(2-6) by blast
  next
    case Created
    let ?s1 = "?s\<lparr>tasks := (tasks ?s)[i := Sleeping]\<rparr>"
    from alone_created [OF i(2) Created assms rec, of io now] obtain c where c:
      "check_stream_timeout_alone i io now ?s = Some (check_stream_timeout i c io ?s1)"
      "timeout_exceeded c t"
      "\<not> timeout_exceeded now t \<longrightarrow> \<not> timeout_exceeded (c - POLL_INTERVAL_SEC * 1000000) t"
      by blast
    have a: "i < length (tasks ?s1)" "tasks ?s1 ! i = Sleeping" "last_data_time ?s1 = Some t"
      "data_stream_buffer ?s1 \<noteq> []"
      using i(2) assms buf by simp_all
    note sum = closure_summary [OF a(1-3) c(2) a(4), of io]
    obtain line where "stdout (check_stream_timeout i c io ?s1) =
        stdout ?s1 @ [SessionTimeout (c - t), line]"
      using sum(1) by blast
    moreover have "stdout ?s1 = stdout ?s" "npy_files ?s1 = npy_files ?s"
      "data_stream_buffer ?s1 = data_stream_buffer ?s"
      by simp_all
    ultimately show ?thesis using i(1) c bound [of c] sum(2-6) by (metis (no_types, lifting))
  qed
qed


theorem timeout_monitor_persists_session_witness:
  "last_data_time (run [Post [1, 2, 3] 0, MonitorStep 0 1000000 WriteOk, Post [4, 5] 4000000]
      initial_state) = Some 4000000 \<and>
   data_stream_buffer (run [Post [1, 2, 3] 0, MonitorStep 0 1000000 WriteOk, Post [4, 5] 4000000]
      initial_state) = [1, 2, 3, 4, 5] \<and>
   (\<exists>s' c. check_stream_timeout_alone 0 WriteOk 5000000
        (run [Post [1, 2, 3] 0, MonitorStep 0 1000000 WriteOk, Post [4, 5] 4000000]
           initial_state) = Some s' \<and>
      (5000000 :: int) < c - 4000000 \<and> c - 4000000 \<le> 6000000 \<and>
      npy_files s' = [[1, 2, 3, 4, 5]] \<and> data_stream_buffer s' = [] \<and>
      \<not> is_receiving s' \<and> last_data_time s' = None)"
proof -
  let ?s = "run [Post [1, 2, 3] 0, MonitorStep 0 1000000 WriteOk, Post [4, 5] 4000000]
      initial_state"
  have a: "last_data_time ?s = Some 4000000" by (simp add: eval_defs)
  have b: "data_stream_buffer ?s = [1, 2, 3, 4, 5]" by (simp add: eval_defs)
  have f: "npy_files ?s = []" by (simp add: eval_defs)
  have k: "timeout_task ?s = Some 0" by (simp add: eval_defs)
  have q: "\<not> timeout_exceeded 5000000 4000000" by (simp add: eval_defs)
  have r: "list_all int32_range [1, 2, 3, 4, 5]" by (simp add: int32_range_def)
  from timeout_monitor_persists_session [OF a, of WriteOk 5000000] obtain i s' c where
    "timeout_task ?s = Some i"
    "check_stream_timeout_alone i WriteOk 5000000 ?s = Some s'"
    "timeout_exceeded c 4000000"
    "\<not> timeout_exceeded 5000000 4000000 \<longrightarrow>
        c - 4000000 \<le> (STREAM_TIMEOUT_SEC + POLL_INTERVAL_SEC) * 1000000"
    "npy_files s' =
       (if list_all int32_range (data_stream_buffer ?s) \<and> WriteOk = WriteOk
        then npy_files ?s @ [data_stream_buffer ?s] else npy_files ?s)"
    "data_stream_buffer s' = []" "\<not> is_receiving s'" "last_data_time s' = None"
    by blast
  then have "check_stream_timeout_alone 0 WriteOk 5000000 ?s = Some s' \<and>
      5000000 < c - 4000000 \<and> c - 4000000 \<le> 6000000 \<and>
      npy_files s' = [[1, 2, 3, 4, 5]] \<and> data_stream_buffer s' = [] \<and>
      \<not> is_receiving s' \<and> last_data_time s' = None"
    using k q b f r
    by (simp add: timeout_exceeded_def STREAM_TIMEOUT_SEC_def POLL_INTERVAL_SEC_def)
  then show ?thesis using a b by blast
qed

theorem timeout_without_snapshot_counterexample:
  "timeout_exceeded 6000000 0 \<and>
   data_stream_buffer (run [Post [1, 2, 3] 0, MonitorStep 0 1000000 WriteOk] initial_state) =
     [1, 2, 3] \<and>
   npy_files (run [Post [1, 2, 3] 0, MonitorStep 0 1000000 WriteOk, MonitorStep 0 6000000 WriteFails]
     initial_state) = [] \<and>
   \<not> is_receiving (run [Post [1, 2, 3] 0, MonitorStep 0 1000000 WriteOk,
     MonitorStep 0 6000000 WriteFails] initial_state) \<and>
   npy_files (run [Post [2147483648] 0, MonitorStep 0 1000000 WriteOk, MonitorStep 0 6000000 WriteOk]
     initial_state) = [] \<and>
   \<not> is_receiving (run [Post [2147483648] 0, MonitorStep 0 1000000 WriteOk,
     MonitorStep 0 6000000 WriteOk] initial_state)"
  by (simp add: eval_defs)

section \<open>Persister failures\<close>



lemma save_log_success:
  assumes "data_stream_buffer s \<noteq> []"
    and "list_all int32_range (data_stream_buffer s)" and "io = WriteOk"
  shows "\<exists>lo hi. np_min (data_stream_buffer s) = Inr lo \<and> np_max (data_stream_buffer s) = Inr hi \<and>
           stdout (save_buffer_to_npy io s) =
             stdout s @ [NpySaved (length (data_stream_buffer s)) (np_mean (data_stream_buffer s)) lo hi]"
proof -
  obtain lo hi where "np_min (data_stream_buffer s) = Inr lo" "np_max (data_stream_buffer s) = Inr hi"
    using assms(1) np_min_Inr np_max_Inr by blast
  then show ?thesis using assms
    by (simp add: save_buffer_to_npy_def np_array_int32_def np_save_def)
qed





section \<open>Broadcast\<close>

lemma accept_batch_objects:
  "list_objects (accept_batch b now s) =
     (if is_receiving s
      then extend_object (buffer_object s) b (list_objects s @ [b])
      else list_objects s @ [b])"
  "buffer_object (accept_batch b now s) =
     (if is_receiving s then buffer_object s else length (list_objects s))"
  by (simp_all add: accept_batch_def Let_def)

lemma buffer_shared_step:
  assumes "buffer_shared s"
  shows "buffer_shared (step e s)"
proof (cases e rule: event_cases)
  case (post b now)
  show ?thesis
  proof (cases "b = []")
    case True
    then show ?thesis using assms post by (simp add: receive_empty)
  next
    case False
    obtain l where l: "snd (receive_co2_raw_data b now s) =
        (accept_batch b now s)\<lparr>stdout := stdout (accept_batch b now s) @ l\<rparr>"
      using receive_state [OF False] by blast
    have "buffer_shared (accept_batch b now s)"
      using assms
      by (auto simp: buffer_shared_def accept_batch_fields accept_batch_objects
          extend_object_def nth_append)
    then show ?thesis using post l by (simp add: buffer_shared_def)
  qed
next
  case (tick i now io)
  show ?thesis
  proof (cases "i < length (tasks s) \<and> tasks s ! i = Sleeping \<and>
              (\<exists>t. last_data_time s = Some t \<and> timeout_exceeded now t)")
    case True
    then obtain t where "last_data_time s = Some t" "timeout_exceeded now t" by blast
    then show ?thesis using True tick by (simp add: buffer_shared_def closed_state)
  next
    case False
    show ?thesis using assms tick cst_quiet [OF False, of io] by (simp add: buffer_shared_def)
  qed
next
  case hub
  then have "same_session s (step e s)" by (rule hub_step_same)
  then show ?thesis using assms by (simp add: buffer_shared_def same_session_def)
qed

lemma buffer_shared_run: "buffer_shared (run es initial_state)"
proof -
  have "buffer_shared s \<Longrightarrow> buffer_shared (run es s)" for s
    by (induction es arbitrary: s) (simp_all add: buffer_shared_step)
  then show ?thesis by (simp add: buffer_shared_def initial_state_def)
qed

lemmas hub_defs =
  broadcast_data_def next_send_def send_text_def connect_def disconnect_def
  json_dumps_def str_int_def digit_char_def

text \<open>
  C6. Two runs of the broadcast that other tasks interleave with, and one that none does.
  \<^item> Observers 1 and 2 are registered and a batch \<open>[1, 2, 3]\<close> is ingested. The broadcast
    task serialises it and waits in its send to observer 1. Meanwhile the remote end of
    observer 1 goes away and its endpoint unregisters it, so that observer 2 moves to the
    front of the list. The send to observer 1 then raises, the iterator of the loop
    stands at index 1, past the end of the list, and the task returns: observer 2, alive
    and registered throughout, has received nothing.
  \<^item> Observer 2 is registered; a batch \<open>[1, 2, 3]\<close> opens a session, and a second request
    with \<open>[4, 5]\<close> is handled before the first broadcast task takes its first step. The
    task was handed the list that is the buffer itself, which the second request has
    extended: observer 2 receives \<open>[1, 2, 3, 4, 5]\<close> and then \<open>[4, 5]\<close>.
  \<^item> With the remote end of observer 1 gone before the batch and nothing scheduled
    between the sends, observer 2 receives \<open>[1, 2, 3]\<close>.
\<close>

theorem broadcast_skips_observer:
  "active_connections (run [WsConnect 1, WsConnect 2, Post [1, 2, 3] 0] initial_state) = [1, 2] \<and>
   broadcast_tasks (run [WsConnect 1, WsConnect 2, Post [1, 2, 3] 0] initial_state) =
     [BcCreated 0] \<and>
   broadcast_tasks (run [WsConnect 1, WsConnect 2, Post [1, 2, 3] 0, BroadcastStep 0,
     PeerClose 1, WsDisconnect 1, BroadcastStep 0] initial_state) = [BcDone] \<and>
   active_connections (run [WsConnect 1, WsConnect 2, Post [1, 2, 3] 0, BroadcastStep 0,
     PeerClose 1, WsDisconnect 1, BroadcastStep 0] initial_state) = [2] \<and>
   alive (peers (run [WsConnect 1, WsConnect 2, Post [1, 2, 3] 0, BroadcastStep 0,
     PeerClose 1, WsDisconnect 1, BroadcastStep 0] initial_state) 2) \<and>
   inbox (peers (run [WsConnect 1, WsConnect 2, Post [1, 2, 3] 0, BroadcastStep 0,
     PeerClose 1, WsDisconnect 1, BroadcastStep 0] initial_state) 2) = [] \<and>
   inbox (peers (run [WsConnect 2, Post [1, 2, 3] 0, Post [4, 5] 1, BroadcastStep 0,
     BroadcastStep 0, BroadcastStep 1, BroadcastStep 1] initial_state) 2) =
     [''[1, 2, 3, 4, 5]'', ''[4, 5]''] \<and>
   inbox (peers (run [WsConnect 1, WsConnect 2, PeerClose 1, Post [1, 2, 3] 0, BroadcastStep 0,
     BroadcastStep 0, BroadcastStep 0] initial_state) 2) = [''[1, 2, 3]'']"
  by (simp add: eval_defs hub_defs)

section \<open>The stats query after a closure\<close>

text \<open>
  C3. The stats query after a closed session. A batch \<open>[1, 2, 3]\<close> opens a session at
  time 0; the monitor starts, and wakes 6 seconds after the batch, which closes the
  session and writes its array. The session counters still hold the closed session
  (one batch, three points), but the buffer has been cleared, and the stats query answers
  "no data" instead of the statistics of that session with status "ended".
\<close>

theorem stats_after_closed_session:
  "closed_count (run [Post [1, 2, 3] 0, MonitorStep 0 0 WriteOk, MonitorStep 0 6000000 WriteOk]
     initial_state) = 1 \<and>
   npy_files (run [Post [1, 2, 3] 0, MonitorStep 0 0 WriteOk, MonitorStep 0 6000000 WriteOk]
     initial_state) = [[1, 2, 3]] \<and>
   total_batches_received (run [Post [1, 2, 3] 0, MonitorStep 0 0 WriteOk,
     MonitorStep 0 6000000 WriteOk] initial_state) = 1 \<and>
   total_points_received (run [Post [1, 2, 3] 0, MonitorStep 0 0 WriteOk,
     MonitorStep 0 6000000 WriteOk] initial_state) = 3 \<and>
   get_stats (run [Post [1, 2, 3] 0, MonitorStep 0 0 WriteOk, MonitorStep 0 6000000 WriteOk]
     initial_state) = Inr NoData"
  by (simp add: eval_defs closed_count_def get_stats_def)

end
